theory Spec2Isabelle
  imports Complex_Main "HOL-Library.Word" "HOL-Library.Multiset"
begin

section \<open>AliAnalysisTaskDimu: numeric types\<close>

text \<open>
  A \<^verbatim>\<open>Double_t\<close> is modelled by the real number it denotes. Comparison, negation,
  absolute value, doubling and halving are exact on doubles; addition and subtraction
  round their exact result (section on double precision below). NaN, infinities and
  overflow are outside the model. \<^verbatim>\<open>Int_t\<close> counters are \<^typ>\<open>int\<close>: each counter is
  incremented at most once per tracklet and the number of tracklets is itself an
  \<^verbatim>\<open>Int_t\<close>, so no counter can overflow. \<^verbatim>\<open>Short_t\<close> charges are 16-bit words read as
  two's complement (\<open>sint\<close>).
\<close>

type_synonym Double_t = real
type_synonym Int_t = int
type_synonym Short_t = "16 word"

section \<open>Double precision\<close>

text \<open>
  IEEE 754 binary64 with rounding to nearest, ties to even, which is what \<^verbatim>\<open>+\<close> and
  \<^verbatim>\<open>-\<close> on \<^verbatim>\<open>Double_t\<close> do: a number of binary exponent \<open>e\<close> is rounded to a multiple of
  \<open>2 ^ (e - 52)\<close>, and below \<open>2 ^ (- 1022)\<close> to a multiple of \<open>2 ^ (- 1074)\<close>.
\<close>

definition round_even :: "real \<Rightarrow> int" where
  "round_even x =
     (let f = \<lfloor>x\<rfloor>; r = x - of_int f
      in if r < 1 / 2 then f else if r > 1 / 2 then f + 1 else if even f then f else f + 1)"

definition ulp_exponent :: "real \<Rightarrow> int" where
  "ulp_exponent x = max \<lfloor>log 2 \<bar>x\<bar>\<rfloor> (- 1022) - 52"

definition round_double :: "real \<Rightarrow> Double_t" where
  "round_double x =
     (if x = 0 then 0
      else of_int (round_even (x / 2 powr of_int (ulp_exponent x))) * 2 powr of_int (ulp_exponent x))"

definition double_add :: "Double_t \<Rightarrow> Double_t \<Rightarrow> Double_t" where
  "double_add a b = round_double (a + b)"

definition double_sub :: "Double_t \<Rightarrow> Double_t \<Rightarrow> Double_t" where
  "double_sub a b = round_double (a - b)"

text \<open>
  \<^verbatim>\<open>TMath::Pi()\<close>, the double \<^verbatim>\<open>3.14159265358979323846\<close>, that is
  \<open>884279719003555 / 2 ^ 48\<close> (or \<open>7074237752028440 / 2 ^ 51\<close>); it lies below \<open>\<pi>\<close>.
\<close>

definition TMath_Pi :: Double_t where
  "TMath_Pi = 884279719003555 / 2 ^ 48"

section \<open>Charge combination (UserExec, line 319)\<close>

text \<open>
  \<^verbatim>\<open>TString chargeType = ( track->Charge() * track2->Charge() >= 0 ) ? "SS" : "OS";\<close>
  The two \<^verbatim>\<open>Short_t\<close> operands are promoted to \<^verbatim>\<open>int\<close> before the product, which
  therefore cannot overflow.
\<close>

definition chargeType :: "Short_t \<Rightarrow> Short_t \<Rightarrow> string" where
  "chargeType q1 q2 = (if sint q1 * sint q2 \<ge> 0 then ''SS'' else ''OS'')"

section \<open>Tracklet distance cuts (SetTrackletDistCuts, lines 125-136)\<close>

text \<open>
  The caller's array is a list; reading \<^verbatim>\<open>cuts[icut]\<close> beyond its end is undefined
  behaviour in C++ and is the value \<open>None\<close> here.
\<close>

function push_cuts :: "Double_t list \<Rightarrow> Int_t \<Rightarrow> Int_t \<Rightarrow> Double_t list \<Rightarrow> Double_t list option" where
  "push_cuts cuts nCuts icut v =
     (if icut < nCuts then
        (if 0 \<le> icut \<and> nat icut < length cuts
         then push_cuts cuts nCuts (icut + 1) (v @ [cuts ! nat icut])
         else None)
      else Some v)"
  by pat_completeness auto
termination
  by (relation "measure (\<lambda>(cuts, nCuts, icut, v). nat (nCuts - icut))") auto

declare push_cuts.simps [simp del]

text \<open>\<^verbatim>\<open>std::sort(begin, end, std::greater<Double_t>())\<close>: the descending arrangement.\<close>

definition sort_greater :: "Double_t list \<Rightarrow> Double_t list" where
  "sort_greater v = rev (sort v)"

definition SetTrackletDistCuts :: "Double_t list \<Rightarrow> Double_t list \<Rightarrow> Int_t \<Rightarrow> Double_t list option" where
  "SetTrackletDistCuts fTrackletDistCuts cuts nCuts =
     (let cleared = (if fTrackletDistCuts \<noteq> [] then [] else fTrackletDistCuts)
      in map_option sort_greater (push_cuts cuts nCuts 0 cleared))"

section \<open>Cascading tracklet counter (UserExec, lines 340-357)\<close>

record tracklet =
  GetPhi :: Double_t
  CalcDist :: Double_t

text \<open>
  The inner loop over the cuts:
  \<^verbatim>\<open>for (icut=0; icut<nTrackletDistCuts; ++icut) { if (dist > cuts[icut]) break; ++n[icut]; }\<close>
\<close>

function cut_loop :: "Double_t list \<Rightarrow> Double_t \<Rightarrow> nat \<Rightarrow> Int_t list \<Rightarrow> Int_t list" where
  "cut_loop cuts d icut n =
     (if icut < length cuts then
        (if d > cuts ! icut then n
         else cut_loop cuts d (Suc icut) (n[icut := n ! icut + 1]))
      else n)"
  by pat_completeness auto
termination
  by (relation "measure (\<lambda>(cuts, d, icut, n). length cuts - icut)") auto

declare cut_loop.simps [simp del]

text \<open>One accepted tracklet: the cut loop, then \<^verbatim>\<open>++nTrackletsPerCut[nTrackletDistCuts]\<close>.\<close>

definition count_tracklet :: "Double_t list \<Rightarrow> Double_t \<Rightarrow> Int_t list \<Rightarrow> Int_t list" where
  "count_tracklet cuts d n =
     (let n1 = cut_loop cuts d 0 n
      in n1[length cuts := n1 ! length cuts + 1])"

text \<open>
  The loop over the tracklets of the event, for a pair of azimuth \<open>phi\<close>:
  \<^verbatim>\<open>if ( TMath::Abs(phi - mult->GetPhi(itrk)) > TMath::Pi()/2. ) continue;\<close>
  The difference is the one of the two doubles, with no wrap-around at a full turn.
\<close>

fun tracklet_loop :: "Double_t list \<Rightarrow> Double_t \<Rightarrow> tracklet list \<Rightarrow> Int_t list \<Rightarrow> Int_t list" where
  "tracklet_loop cuts phi [] n = n"
| "tracklet_loop cuts phi (trk # trks) n =
     (if \<bar>double_sub phi (GetPhi trk)\<bar> > TMath_Pi / 2 then tracklet_loop cuts phi trks n
      else tracklet_loop cuts phi trks (count_tracklet cuts (CalcDist trk) n))"

text \<open>\<^verbatim>\<open>std::vector<Int_t> nTrackletsPerCut(nTrackletDistCuts+1,0)\<close> and \<^verbatim>\<open>std::fill(.., 0)\<close>.\<close>

definition zero_counts :: "Double_t list \<Rightarrow> Int_t list" where
  "zero_counts cuts = replicate (length cuts + 1) 0"


section \<open>Azimuth of a pair (UserExec, lines 331-333)\<close>

text \<open>\<^verbatim>\<open>Double_t phi = dimuPair.Phi(); if ( phi < 0. ) phi += 2.*TMath::Pi();\<close>\<close>

definition normalise_phi :: "Double_t \<Rightarrow> Double_t" where
  "normalise_phi phi = (if phi < 0 then double_add phi (2 * TMath_Pi) else phi)"

text \<open>The upper edge of the azimuth axis (line 174): \<^verbatim>\<open>phiMax = 2.*TMath::Pi()\<close>.\<close>

definition phiMax :: Double_t where
  "phiMax = 2 * TMath_Pi"

section \<open>Selection of pair types (UserExec, lines 324-327)\<close>

text \<open>
  \<^verbatim>\<open>TPRegexp re(Form("(^|,)%s(,|$)",pairType.Data()));\<close>
  \<^verbatim>\<open>if ( ! fSelectedPairTypes.Contains(re) ) continue;\<close>
  The label is pasted into a regular expression. When the label is a literal pattern,
  that is, when none of its characters is special in a regular expression, the search
  for that expression is the one written out below: an occurrence of the label that
  starts at the beginning of the configured string or right after a comma, and that is
  followed by a comma or by the end of the string. As in PCRE, \<open>$\<close> also matches before
  a line feed that ends the string. For any other label the answer is the one of the
  regular expression library, which is a parameter.
\<close>

definition regexp_special :: "char list" where
  "regexp_special = CHR 0x5C # ''^$.|?*+()[]{}''"

definition literal_pattern :: "string \<Rightarrow> bool" where
  "literal_pattern L = (\<forall>c \<in> set L. c \<notin> set regexp_special)"

text \<open>The tail \<^verbatim>\<open>%s(,|$)\<close> of the expression, tried at the start of \<open>s\<close>.\<close>

definition match_here :: "string \<Rightarrow> string \<Rightarrow> bool" where
  "match_here L s =
     (take (length L) s = L \<and>
      (let r = drop (length L) s
       in r = [] \<or> r = [CHR 0x0A] \<or> hd r = CHR '',''))"

text \<open>The alternative \<^verbatim>\<open>,\<close> of \<^verbatim>\<open>(^|,)\<close>, tried at every position of the string.\<close>

fun scan_comma :: "string \<Rightarrow> string \<Rightarrow> bool" where
  "scan_comma L [] = False"
| "scan_comma L (c # s) = ((c = CHR '','' \<and> match_here L s) \<or> scan_comma L s)"

definition Contains_re :: "string \<Rightarrow> string \<Rightarrow> bool" where
  "Contains_re selected L = (match_here L selected \<or> scan_comma L selected)"

text \<open>
  A pair is kept when the configured string is null or contains the expression;
  \<open>contains\<close> is \<^verbatim>\<open>TString::Contains(TPRegexp)\<close>, given the string and the pattern.
\<close>

definition pair_type_kept :: "(string \<Rightarrow> string \<Rightarrow> bool) \<Rightarrow> string \<Rightarrow> string \<Rightarrow> bool" where
  "pair_type_kept contains fSelectedPairTypes pairType =
     (if fSelectedPairTypes \<noteq> [] then
        (if literal_pattern pairType then Contains_re fSelectedPairTypes pairType
         else contains fSelectedPairTypes (''(^|,)'' @ pairType @ ''(,|$)''))
      else True)"

text \<open>
  The reading of the specification: the configured string cut at its commas, and the
  label compared with each segment for equality.
\<close>

fun split_comma :: "string \<Rightarrow> string list" where
  "split_comma [] = [[]]"
| "split_comma (c # s) =
     (if c = CHR '','' then [] # split_comma s
      else (c # hd (split_comma s)) # tl (split_comma s))"

section \<open>Mergeable objects and the collection\<close>

text \<open>
  Modelled from the spec: the classes \<^verbatim>\<open>THnSparse\<close>, \<^verbatim>\<open>TH1D\<close> and
  \<^verbatim>\<open>AliMergeableCollection\<close> are used by the task but their code is not part of the
  source file. The histogram, its \<open>Fill\<close> and the \<open>Merge\<close> operations below follow
  sections 3, 4.3, 4.4 and 7 of the specification: an axis is a name, a unit, a bin
  count and two bounds; a histogram is its axes and one count per tuple of bin indices;
  a sample with a coordinate outside \<open>[lower, upper)\<close> is dropped.
\<close>

record AxisSpec =
  axis_name :: string
  axis_unit :: string
  nbins :: nat
  lower :: Double_t
  upper :: Double_t

record histogram =
  axes :: "AxisSpec list"
  bins :: "nat list \<Rightarrow> nat"

definition bin_index :: "AxisSpec \<Rightarrow> Double_t \<Rightarrow> nat option" where
  "bin_index ax x =
     (if lower ax \<le> x \<and> x < upper ax
      then Some (nat \<lfloor>(x - lower ax) * real (nbins ax) / (upper ax - lower ax)\<rfloor>)
      else None)"

fun find_bins :: "AxisSpec list \<Rightarrow> Double_t list \<Rightarrow> nat list option" where
  "find_bins [] xs = Some []"
| "find_bins (ax # as) [] = None"
| "find_bins (ax # as) (x # xs) =
     (case bin_index ax x of None \<Rightarrow> None
      | Some i \<Rightarrow> (case find_bins as xs of None \<Rightarrow> None | Some js \<Rightarrow> Some (i # js)))"

definition Fill :: "histogram \<Rightarrow> Double_t list \<Rightarrow> nat \<Rightarrow> histogram" where
  "Fill h sample w =
     (case find_bins (axes h) sample of
        None \<Rightarrow> h
      | Some b \<Rightarrow> h\<lparr>bins := (bins h)(b := bins h b + w)\<rparr>)"

definition empty_like :: "histogram \<Rightarrow> histogram" where
  "empty_like h = \<lparr>axes = axes h, bins = (\<lambda>b. 0)\<rparr>"

text \<open>
  Modelled from the spec: the objects of a store (section 9, a tagged variant of
  histogram and counter) and their merge rules, which are not part of the source
  file: the sum for histograms of identical axes and for counters; histograms of
  different axes do not merge (\<open>AxisMismatchOnMerge\<close>, section 7). The \<^verbatim>\<open>nevents\<close>
  object of the task, \<^verbatim>\<open>new TH1D(name,name,1,0.5,1.5)\<close> filled only with
  \<^verbatim>\<open>Fill(1.)\<close>, is the counter.
\<close>

datatype mergeable = Histogram histogram | Counter nat

datatype merge_error = AxisMismatchOnMerge | ObjectKindMismatch

definition merge_histogram :: "histogram \<Rightarrow> histogram \<Rightarrow> merge_error + histogram" where
  "merge_histogram a b =
     (if axes a = axes b
      then Inr \<lparr>axes = axes a, bins = (\<lambda>i. bins a i + bins b i)\<rparr>
      else Inl AxisMismatchOnMerge)"

fun merge_object :: "mergeable \<Rightarrow> mergeable \<Rightarrow> merge_error + mergeable" where
  "merge_object (Histogram a) (Histogram b) =
     (case merge_histogram a b of Inl e \<Rightarrow> Inl e | Inr h \<Rightarrow> Inr (Histogram h))"
| "merge_object (Counter m) (Counter n) = Inr (Counter (m + n))"
| "merge_object (Histogram a) (Counter n) = Inl ObjectKindMismatch"
| "merge_object (Counter m) (Histogram b) = Inl ObjectKindMismatch"

text \<open>
  Modelled from the spec: the \<open>Merge\<close> of two stores (section 4.4), whose code is in
  \<^verbatim>\<open>AliMergeableCollection\<close> and not part of the source file. A store maps a path to
  its object. \<open>Merge\<close> walks the paths of the other store: a
  path present in both has its two objects merged, and a merge that fails is aborted
  for that leaf, which keeps the receiver's object; a path present only in the other
  store is adopted.
\<close>

type_synonym 'k store = "'k \<Rightarrow> mergeable option"

definition Merge :: "'k store \<Rightarrow> 'k store \<Rightarrow> 'k store" where
  "Merge a b =
     (\<lambda>p. case b p of
             None \<Rightarrow> a p
           | Some y \<Rightarrow>
               (case a p of
                  None \<Rightarrow> Some y
                | Some x \<Rightarrow> (case merge_object x y of Inr z \<Rightarrow> Some z | Inl e \<Rightarrow> Some x)))"

text \<open>
  Two stores have the same structure when every path they share holds objects of the
  same kind and, for histograms, of the same axes.
\<close>

fun structure_of :: "mergeable \<Rightarrow> AxisSpec list option" where
  "structure_of (Histogram h) = Some (axes h)"
| "structure_of (Counter n) = None"

definition compatible :: "'k store \<Rightarrow> 'k store \<Rightarrow> bool" where
  "compatible a b =
     (\<forall>p x y. a p = Some x \<and> b p = Some y \<longrightarrow> structure_of x = structure_of y)"

text \<open>
  Modelled from the spec: \<^verbatim>\<open>AliMergeableCollection::GetObject\<close> and \<^verbatim>\<open>Adopt\<close>, which
  are not part of the source file. The collection of the task is a store whose paths
  are the pairs of an identifier and an object name; a path holds one object for the
  lifetime of the store (section 3), so \<open>Adopt\<close> never replaces an object, and it
  refuses a null object.
\<close>

type_synonym collection = "(string \<times> string) store"

definition GetObject :: "collection \<Rightarrow> string \<Rightarrow> string \<Rightarrow> mergeable option" where
  "GetObject c identifier objectName = c (identifier, objectName)"

definition Adopt :: "collection \<Rightarrow> string \<Rightarrow> string \<Rightarrow> mergeable option \<Rightarrow> collection" where
  "Adopt c identifier objectName obj =
     (case obj of
        None \<Rightarrow> c
      | Some ob \<Rightarrow> (if c (identifier, objectName) = None then c((identifier, objectName) \<mapsto> ob) else c))"

section \<open>The task and GetMergeableObject (lines 139-159)\<close>

datatype message = AliError string | AliInfo string

record AliAnalysisTaskDimu =
  fTrackletDistCuts :: "Double_t list"
  fSelectedPairTypes :: string
  fMergeableCollection :: collection
  fSparse :: histogram
  messages :: "message list"

text \<open>
  The result is the object, or \<open>None\<close> for the null pointer, and the task with its
  collection and its log. \<^verbatim>\<open>fSparse->Clone(name)\<close> is the value of the template. The size
  that \<^verbatim>\<open>AliInfo\<close> prints comes from \<^verbatim>\<open>EstimateSize\<close> and is left out of the message.
\<close>

definition GetMergeableObject ::
  "AliAnalysisTaskDimu \<Rightarrow> string \<Rightarrow> string \<Rightarrow> mergeable option \<times> AliAnalysisTaskDimu" where
  "GetMergeableObject t identifier objectName =
     (case GetObject (fMergeableCollection t) identifier objectName of
        Some obj \<Rightarrow> (Some obj, t)
      | None \<Rightarrow>
          (let (obj, t1) =
                 (if objectName = ''DimuSparse'' then (Some (Histogram (fSparse t)), t)
                  else if objectName = ''nevents'' then (Some (Counter 0), t)
                  else (None, t\<lparr>messages := messages t @ [AliError (''Unknown object '' @ objectName @ [CHR 0x0A])]\<rparr>));
               t2 = t1\<lparr>fMergeableCollection :=
                         Adopt (fMergeableCollection t1) identifier objectName obj\<rparr>;
               t3 = t2\<lparr>messages := messages t2 @ [AliInfo ''Mergeable object collection size'']\<rparr>
           in (obj, t3)))"

text \<open>Every object of a collection of the task has one of the two names of the factory.\<close>

definition factory_names :: "collection \<Rightarrow> bool" where
  "factory_names c =
     (\<forall>identifier objectName. c (identifier, objectName) \<noteq> None \<longrightarrow>
        objectName = ''DimuSparse'' \<or> objectName = ''nevents'')"

section \<open>Event processing (UserExec, lines 231-377)\<close>

text \<open>
  The enumerations of the header, which is not part of the source file; their order is
  that of the axis arrays in \<^verbatim>\<open>UserCreateOutputObjects\<close> and of the step loop.
\<close>

definition kHvarPt :: nat where "kHvarPt = 0"
definition kHvarY :: nat where "kHvarY = 1"
definition kHvarPhi :: nat where "kHvarPhi = 2"
definition kHvarInvMass :: nat where "kHvarInvMass = 3"
definition kHcentrality :: nat where "kHcentrality = 4"
definition kHtracklets :: nat where "kHtracklets = 5"
definition kNvars :: nat where "kNvars = 6"
definition kStepReconstructed :: nat where "kStepReconstructed = 0"

text \<open>
  A track with what the task reads from it; \<open>IsSelected\<close> is the answer of
  \<^verbatim>\<open>fMuonPairCuts.GetMuonTrackCuts().IsSelected(track)\<close>.
\<close>

record AliVParticle =
  Charge :: Short_t
  PdgCode :: int
  StatusCode :: int
  Eta :: Double_t
  IsSelected :: bool

record TLorentzVector =
  Pt :: Double_t
  Rapidity :: Double_t
  Phi :: Double_t
  M :: Double_t

text \<open>
  The external collaborators of one event: the pair type of two tracks (from their
  particle types and common ancestor), their pair four-vector, the per-trigger
  momentum cut of a pair, the \<^verbatim>\<open>%g\<close> format of a cut value, and the search for a
  regular expression in a string.
\<close>

record collaborators =
  GetPairType :: "AliVParticle \<Rightarrow> AliVParticle \<Rightarrow> string"
  GetTrackPair :: "AliVParticle \<Rightarrow> AliVParticle \<Rightarrow> TLorentzVector"
  TrackPtCutMatchTrigClass :: "AliVParticle \<Rightarrow> AliVParticle \<Rightarrow> string \<Rightarrow> bool"
  Form_g :: "Double_t \<Rightarrow> string"
  Contains_TPRegexp :: "string \<Rightarrow> string \<Rightarrow> bool"

text \<open>
  The event: the verdict of \<^verbatim>\<open>fMuonEventCuts.IsSelected\<close>, the multiplicity object (or
  null), the trigger classes selected in the event, the centrality, the reconstructed
  tracks and the tracks of the Monte Carlo event (or null).
\<close>

record event =
  EventSelected :: bool
  GetMultiplicity :: "tracklet list option"
  SelectedTrigClasses :: "string list"
  GetCentrality :: Double_t
  Tracks :: "AliVParticle list"
  MCEvent :: "AliVParticle list option"

text \<open>The calls of \<open>Fill\<close> of one event, in order: the identifier and the values.\<close>

datatype fill = FillNevents string | FillSparse string "Double_t list"

fun fill_identifier :: "fill \<Rightarrow> string" where
  "fill_identifier (FillNevents identifier) = identifier"
| "fill_identifier (FillSparse identifier x) = identifier"

definition trackletDistCutsName :: "collaborators \<Rightarrow> Double_t list \<Rightarrow> string list" where
  "trackletDistCutsName env cuts =
     map (\<lambda>val. ''trackletDistCuts_'' @ Form_g env val) cuts @ [''trackletDistCuts_none'']"

text \<open>The selection of a track in a step (line 290).\<close>

definition isSelected :: "nat \<Rightarrow> AliVParticle \<Rightarrow> bool" where
  "isSelected istep track =
     (if istep = kStepReconstructed then IsSelected track
      else (\<bar>PdgCode track\<bar> = 13 \<and> StatusCode track < 10) \<and> Eta track < - 2.5 \<and> Eta track > - 4)"

text \<open>The pairs of the two nested loops, \<open>jtrack\<close> running above \<open>itrack\<close>.\<close>

fun track_pairs :: "'a list \<Rightarrow> ('a \<times> 'a) list" where
  "track_pairs [] = []"
| "track_pairs (x # xs) = map (Pair x) xs @ track_pairs xs"

text \<open>
  The tracklet counts of a pair. The vector is created with zeros at the start of the
  event and is touched only inside \<^verbatim>\<open>if ( mult )\<close>, where it is first reset.
\<close>

definition nTrackletsPerCut :: "Double_t list \<Rightarrow> tracklet list option \<Rightarrow> Double_t \<Rightarrow> Int_t list" where
  "nTrackletsPerCut cuts multiplicity phi =
     (case multiplicity of
        None \<Rightarrow> zero_counts cuts
      | Some trks \<Rightarrow> tracklet_loop cuts phi trks (zero_counts cuts))"

definition containerInput :: "TLorentzVector \<Rightarrow> Double_t \<Rightarrow> Double_t \<Rightarrow> Int_t \<Rightarrow> Double_t list" where
  "containerInput dimuPair phi centrality ntracklets =
     (replicate kNvars 0)
       [kHcentrality := centrality,
        kHvarPt := Pt dimuPair,
        kHvarY := Rapidity dimuPair,
        kHvarPhi := phi,
        kHvarInvMass := M dimuPair,
        kHtracklets := real_of_int ntracklets]"

text \<open>The body of the loop on the second track (lines 316-371).\<close>

definition pair_fills ::
  "collaborators \<Rightarrow> AliAnalysisTaskDimu \<Rightarrow> event \<Rightarrow> nat \<Rightarrow> string list \<Rightarrow>
   AliVParticle \<times> AliVParticle \<Rightarrow> fill list" where
  "pair_fills env t ev istep selTrigClasses tt =
     (let track = fst tt; track2 = snd tt;
          chargeT = chargeType (Charge track) (Charge track2);
          pairType = GetPairType env track track2
      in if \<not> pair_type_kept (Contains_TPRegexp env) (fSelectedPairTypes t) pairType then []
         else
           (let dimuPair = GetTrackPair env track track2;
                phi = normalise_phi (Phi dimuPair);
                n = nTrackletsPerCut (fTrackletDistCuts t) (GetMultiplicity ev) phi
            in concat (map (\<lambda>trigClass.
                 if istep = kStepReconstructed \<and> \<not> TrackPtCutMatchTrigClass env track track2 trigClass
                 then []
                 else map (\<lambda>icut.
                        FillSparse
                          (''/'' @ trigClass @ ''/'' @ trackletDistCutsName env (fTrackletDistCuts t) ! icut
                             @ ''/'' @ pairType @ ''/'' @ chargeT)
                          (containerInput dimuPair phi (GetCentrality ev) (n ! icut)))
                      [0 ..< length (fTrackletDistCuts t) + 1])
               selTrigClasses)))"

text \<open>One pass of the loop on the steps (lines 256-374).\<close>

definition step_fills :: "collaborators \<Rightarrow> AliAnalysisTaskDimu \<Rightarrow> event \<Rightarrow> nat \<Rightarrow> fill list" where
  "step_fills env t ev istep =
     (let selTrigClasses =
            (if istep = kStepReconstructed then SelectedTrigClasses ev else [''generated'']);
          tracks =
            (if istep = kStepReconstructed then Tracks ev
             else (case MCEvent ev of None \<Rightarrow> [] | Some mc \<Rightarrow> mc));
          selectedTracks = filter (isSelected istep) tracks
      in map (\<lambda>trigClass. FillNevents (''/'' @ trigClass)) selTrigClasses
         @ (if length selectedTracks < 2 then []
            else concat (map (pair_fills env t ev istep selTrigClasses) (track_pairs selectedTracks))))"

definition event_fills :: "collaborators \<Rightarrow> AliAnalysisTaskDimu \<Rightarrow> event \<Rightarrow> fill list" where
  "event_fills env t ev =
     (let nSteps = (if MCEvent ev \<noteq> None then 2 else 1 :: nat)
      in concat (map (step_fills env t ev) [0 ..< nSteps]))"

text \<open>
  One call of \<open>Fill\<close> on the object that \<open>GetMergeableObject\<close> returns; the object lives
  in the collection, which therefore holds the filled object afterwards. Both names
  are known to the factory, so the pointer is never null here; a stored object of the
  other kind under the name would make the \<^verbatim>\<open>static_cast\<close> undefined and leaves the
  task as it is.
\<close>

definition apply_fill :: "AliAnalysisTaskDimu \<Rightarrow> fill \<Rightarrow> AliAnalysisTaskDimu" where
  "apply_fill t f =
     (case f of
        FillNevents identifier \<Rightarrow>
          (case GetMergeableObject t identifier ''nevents'' of
             (Some (Counter n), t1) \<Rightarrow>
               t1\<lparr>fMergeableCollection :=
                    (fMergeableCollection t1)((identifier, ''nevents'') \<mapsto> Counter (n + 1))\<rparr>
           | (_, t1) \<Rightarrow> t1)
      | FillSparse identifier x \<Rightarrow>
          (case GetMergeableObject t identifier ''DimuSparse'' of
             (Some (Histogram h), t1) \<Rightarrow>
               t1\<lparr>fMergeableCollection :=
                    (fMergeableCollection t1)((identifier, ''DimuSparse'') \<mapsto> Histogram (Fill h x 1))\<rparr>
           | (_, t1) \<Rightarrow> t1))"

text \<open>
  The whole call: the early return for a rejected event, else the fills of the event in
  order. \<^verbatim>\<open>PostData\<close> hands the collection to the output slot and changes nothing.
\<close>

definition UserExec :: "collaborators \<Rightarrow> AliAnalysisTaskDimu \<Rightarrow> event \<Rightarrow> AliAnalysisTaskDimu" where
  "UserExec env t ev =
     (if \<not> EventSelected ev then t
      else foldl apply_fill t (event_fills env t ev))"

section \<open>A small event and two small stores\<close>

text \<open>Concrete inputs on which the statements below are exercised.\<close>

definition example_env :: collaborators where
  "example_env =
     \<lparr>GetPairType = (\<lambda>a b. ''Jpsi''),
      GetTrackPair = (\<lambda>a b. \<lparr>Pt = 1, Rapidity = - 3, Phi = - 1, M = 3\<rparr>),
      TrackPtCutMatchTrigClass = (\<lambda>a b trigClass. True),
      Form_g = (\<lambda>val. ''2''),
      Contains_TPRegexp = (\<lambda>subject pattern. False)\<rparr>"

definition example_track :: "Short_t \<Rightarrow> AliVParticle" where
  "example_track q = \<lparr>Charge = q, PdgCode = 13, StatusCode = 1, Eta = - 3, IsSelected = True\<rparr>"

definition example_event :: event where
  "example_event =
     \<lparr>EventSelected = True, GetMultiplicity = None, SelectedTrigClasses = [''CMUL''],
      GetCentrality = 10, Tracks = [example_track 1, example_track (- 1)], MCEvent = None\<rparr>"

definition example_task :: AliAnalysisTaskDimu where
  "example_task =
     \<lparr>fTrackletDistCuts = [], fSelectedPairTypes = [], fMergeableCollection = Map.empty,
      fSparse = \<lparr>axes = [], bins = (\<lambda>b. 0)\<rparr>, messages = []\<rparr>"

definition store_one :: "string store" where
  "store_one = Map.empty(''/CMUL'' \<mapsto> Counter 1)"

definition store_two :: "string store" where
  "store_two = Map.empty(''/CMUL'' \<mapsto> Counter 2, ''/CINT'' \<mapsto> Counter 1)"

section \<open>Properties\<close>

lemma length_cut_loop: "length (cut_loop cuts d icut n) = length n"
proof (induction cuts d icut n rule: cut_loop.induct)
  case (1 cuts d icut n)
  then show ?case by (subst cut_loop.simps) simp
qed

subsection \<open>The cascading counter\<close>

lemma nth_cut_loop:
  "i < length n \<Longrightarrow> length n = length cuts + 1 \<Longrightarrow> icut \<le> length cuts \<Longrightarrow>
   cut_loop cuts d icut n ! i =
     (if icut \<le> i \<and> i < icut + length (takeWhile (\<lambda>t. \<not> d > t) (drop icut cuts))
      then n ! i + 1 else n ! i)"
proof (induction cuts d icut n rule: cut_loop.induct)
  case (1 cuts d icut n)
  show ?case
  proof (cases "icut < length cuts")
    case False
    then have "cut_loop cuts d icut n = n"
      by (subst cut_loop.simps) simp
    with False "1.prems" show ?thesis by simp
  next
    case inb: True
    have dr: "drop icut cuts = cuts ! icut # drop (Suc icut) cuts"
      by (rule Cons_nth_drop_Suc [OF inb, symmetric])
    show ?thesis
    proof (cases "d > cuts ! icut")
      case True
      with inb have "cut_loop cuts d icut n = n"
        by (subst cut_loop.simps) simp
      with True dr show ?thesis by simp
    next
      case False
      let ?n = "n[icut := n ! icut + 1]"
      let ?k = "length (takeWhile (\<lambda>t. \<not> d > t) (drop (Suc icut) cuts))"
      have unf: "cut_loop cuts d icut n = cut_loop cuts d (Suc icut) ?n"
        using inb False by (subst cut_loop.simps) simp
      have ih: "cut_loop cuts d (Suc icut) ?n ! i =
          (if Suc icut \<le> i \<and> i < Suc icut + ?k then ?n ! i + 1 else ?n ! i)"
        using "1.IH" [OF inb False] "1.prems" inb by simp
      have tw: "length (takeWhile (\<lambda>t. \<not> d > t) (drop icut cuts)) = Suc ?k"
        using False dr by simp
      have upd: "?n ! i = (if i = icut then n ! i + 1 else n ! i)"
        using "1.prems" inb by (simp add: nth_list_update)
      show ?thesis
        unfolding unf ih tw upd by (cases "i = icut") simp_all
    qed
  qed
qed

lemma takeWhile_desc:
  assumes "sorted_wrt (\<ge>) (T :: real list)" "i < length T"
  shows "(i < length (takeWhile (\<lambda>t. \<not> d > t) T)) = (d \<le> T ! i)"
proof
  assume "i < length (takeWhile (\<lambda>t. \<not> d > t) T)"
  then have "\<not> d > takeWhile (\<lambda>t. \<not> d > t) T ! i"
    using nth_mem set_takeWhileD by fastforce
  moreover have "takeWhile (\<lambda>t. \<not> d > t) T ! i = T ! i"
    using \<open>i < length (takeWhile (\<lambda>t. \<not> d > t) T)\<close> by (rule takeWhile_nth)
  ultimately show "d \<le> T ! i" by simp
next
  assume le: "d \<le> T ! i"
  have "\<And>j. j < Suc i \<Longrightarrow> \<not> d > T ! j"
  proof -
    fix j assume "j < Suc i"
    then have "T ! j \<ge> T ! i"
      using assms by (cases "j = i") (auto simp: sorted_wrt_iff_nth_less)
    with le show "\<not> d > T ! j" by simp
  qed
  then have "Suc i \<le> length (takeWhile (\<lambda>t. \<not> d > t) T)"
    using assms(2) by (intro length_takeWhile_less_P_nth) auto
  then show "i < length (takeWhile (\<lambda>t. \<not> d > t) T)" by simp
qed

lemma length_count_tracklet: "length (count_tracklet cuts d n) = length n"
  by (simp add: count_tracklet_def Let_def length_cut_loop)

lemma nth_count_tracklet:
  assumes "length n = length cuts + 1" "i < length n"
  shows "count_tracklet cuts d n ! i =
     (if i < length (takeWhile (\<lambda>t. \<not> d > t) cuts) \<or> i = length cuts then n ! i + 1 else n ! i)"
proof -
  have tw: "length (takeWhile (\<lambda>t. \<not> d > t) cuts) \<le> length cuts"
    by (rule length_takeWhile_le)
  show ?thesis
    using assms tw
    by (simp add: count_tracklet_def Let_def length_cut_loop nth_list_update nth_cut_loop)
qed

text \<open>
  Claim C1. For a list of thresholds sorted in descending order, one accepted hit of
  distance \<open>d\<close> increments slot \<open>i\<close> exactly when \<open>d\<close> does not exceed threshold \<open>i\<close>, and
  always increments the last, unconditional slot. For the thresholds 5 and 2 and the
  distance 3 the counts of one hit are 1, 0, 1; with no threshold the result is the
  single unconditional slot.
\<close>

theorem cascade_counter:
  assumes "sorted_wrt (\<ge>) T" and "length n = length T + 1"
  shows "length (count_tracklet T d n) = length n
       \<and> (\<forall>i < length T. count_tracklet T d n ! i = n ! i + (if d \<le> T ! i then 1 else 0))
       \<and> count_tracklet T d n ! length T = n ! length T + 1
       \<and> count_tracklet [5, 2] 3 (zero_counts [5, 2]) = [1, 0, 1]
       \<and> count_tracklet [] d (zero_counts []) = [1]"
proof -
  have a: "\<forall>i < length T. count_tracklet T d n ! i = n ! i + (if d \<le> T ! i then 1 else 0)"
    using assms by (auto simp: nth_count_tracklet takeWhile_desc)
  have b: "count_tracklet T d n ! length T = n ! length T + 1"
    using assms by (simp add: nth_count_tracklet)
  have c: "count_tracklet [5, 2] 3 (zero_counts [5, 2]) = [1, 0, 1]"
    by (simp add: count_tracklet_def zero_counts_def Let_def cut_loop.simps)
  have e: "count_tracklet [] d (zero_counts []) = [1]"
    by (simp add: count_tracklet_def zero_counts_def Let_def cut_loop.simps)
  show ?thesis using a b c e by (simp add: length_count_tracklet)
qed

theorem cascade_counter_witness:
  "sorted_wrt (\<ge>) [5, 2 :: real] \<and> length [0, 0, 0 :: int] = length [5, 2 :: real] + 1
   \<and> count_tracklet [5, 2] 3 [0, 0, 0] ! 0 = 1
   \<and> count_tracklet [5, 2] 3 [0, 0, 0] ! 1 = 0
   \<and> count_tracklet [5, 2] 3 [0, 0, 0] ! 2 = 1"
proof -
  have h1: "sorted_wrt (\<ge>) [5, 2 :: real]" by simp
  have h2: "length [0, 0, 0 :: int] = length [5, 2 :: real] + 1" by simp
  note c = cascade_counter [OF h1 h2, of 3]
  from c have a: "\<forall>i < length [5, 2 :: real]. count_tracklet [5, 2] 3 [0, 0, 0] ! i
      = [0, 0, 0] ! i + (if 3 \<le> [5, 2 :: real] ! i then 1 else 0)"
    by blast
  from c have b: "count_tracklet [5, 2] 3 [0, 0, 0] ! length [5, 2 :: real]
      = [0, 0, 0] ! length [5, 2 :: real] + 1"
    by blast
  have "count_tracklet [5, 2] 3 [0, 0, 0] ! 0 = 1"
    using a [rule_format, of 0] by simp
  moreover have "count_tracklet [5, 2] 3 [0, 0, 0] ! 1 = 0"
    using a [rule_format, of 1] by simp
  moreover have "count_tracklet [5, 2] 3 [0, 0, 0] ! 2 = 1"
    using b by (simp add: numeral_2_eq_2)
  ultimately show ?thesis using h1 h2 by simp
qed

subsection \<open>The setter of the distance cuts and the charge label\<close>

lemma push_cuts_take:
  "0 \<le> icut \<Longrightarrow> nCuts \<le> int (length cuts) \<Longrightarrow>
   push_cuts cuts nCuts icut v = Some (v @ drop (nat icut) (take (nat nCuts) cuts))"
proof (induction cuts nCuts icut v rule: push_cuts.induct)
  case (1 cuts nCuts icut v)
  show ?case
  proof (cases "icut < nCuts")
    case False
    then have "push_cuts cuts nCuts icut v = Some v"
      by (subst push_cuts.simps) simp
    with False show ?thesis using "1.prems" by simp
  next
    case True
    then have inb: "0 \<le> icut \<and> nat icut < length cuts" using "1.prems" by auto
    have lt: "nat icut < length (take (nat nCuts) cuts)" using True "1.prems" by auto
    have "drop (nat icut) (take (nat nCuts) cuts)
            = take (nat nCuts) cuts ! nat icut # drop (Suc (nat icut)) (take (nat nCuts) cuts)"
      by (rule Cons_nth_drop_Suc [OF lt, symmetric])
    moreover have "take (nat nCuts) cuts ! nat icut = cuts ! nat icut"
      using True "1.prems" by simp
    moreover have "Suc (nat icut) = nat (icut + 1)" using "1.prems" by simp
    ultimately have dr: "drop (nat icut) (take (nat nCuts) cuts)
            = cuts ! nat icut # drop (nat (icut + 1)) (take (nat nCuts) cuts)" by simp
    have "push_cuts cuts nCuts icut v = push_cuts cuts nCuts (icut + 1) (v @ [cuts ! nat icut])"
      using True inb by (subst push_cuts.simps) simp
    also have "\<dots> = Some ((v @ [cuts ! nat icut]) @ drop (nat (icut + 1)) (take (nat nCuts) cuts))"
      using "1.IH"[OF True inb] "1.prems" by simp
    finally show ?thesis using dr by simp
  qed
qed

lemma sorted_sort_greater: "sorted_wrt (\<ge>) (sort_greater v)"
  unfolding sort_greater_def by (simp add: sorted_wrt_rev)

lemma mset_sort_greater: "mset (sort_greater v) = mset v"
  by (simp add: sort_greater_def)

lemma SetTrackletDistCuts_Some:
  "nCuts \<le> int (length cuts) \<Longrightarrow>
   SetTrackletDistCuts old cuts nCuts = Some (sort_greater (take (nat nCuts) cuts))"
  by (simp add: SetTrackletDistCuts_def push_cuts_take)

text \<open>
  Claim C4, as amended. The setter replaces the stored list by the first \<open>nCuts\<close> values
  of the caller's array arranged in descending order; every value is kept as often as
  it was given, so the stored list is free of duplicates exactly when the input was.
\<close>

theorem SetTrackletDistCuts_sorted_keeps_duplicates:
  assumes "nCuts \<le> int (length cuts)"
  shows "SetTrackletDistCuts old cuts nCuts = Some (sort_greater (take (nat nCuts) cuts))
       \<and> sorted_wrt (\<ge>) (sort_greater (take (nat nCuts) cuts))
       \<and> mset (sort_greater (take (nat nCuts) cuts)) = mset (take (nat nCuts) cuts)
       \<and> (distinct (sort_greater (take (nat nCuts) cuts)) \<longleftrightarrow> distinct (take (nat nCuts) cuts))"
proof -
  have "distinct (sort_greater (take (nat nCuts) cuts)) \<longleftrightarrow> distinct (take (nat nCuts) cuts)"
    by (simp add: sort_greater_def)
  then show ?thesis
    using assms by (simp add: SetTrackletDistCuts_Some sorted_sort_greater mset_sort_greater)
qed

theorem SetTrackletDistCuts_witness:
  "(3::int) \<le> int (length [2, 5, 3 :: real])
   \<and> SetTrackletDistCuts [1] [2, 5, 3] 3 = Some [5, 3, 2]
   \<and> sorted_wrt (\<ge>) [5, 3, 2 :: real]"
proof -
  have h: "(3::int) \<le> int (length [2, 5, 3 :: real])" by simp
  have s: "sort_greater (take (nat 3) [2, 5, 3]) = [5, 3, 2]"
    by (simp add: sort_greater_def)
  show ?thesis
    using SetTrackletDistCuts_sorted_keeps_duplicates [OF h, of "[1]"] h unfolding s by simp
qed

text \<open>
  Claim C4 as stated fails: given the value 2 twice, the setter stores it twice.
\<close>

theorem SetTrackletDistCuts_duplicates_counterexample:
  "SetTrackletDistCuts [] [2, 2] 2 = Some [2, 2] \<and> \<not> distinct [2, 2 :: real]"
  by (simp add: SetTrackletDistCuts_def sort_greater_def push_cuts.simps)

text \<open>
  Claim C7. The charge label of a pair is one of the two values SS and OS, it is SS
  exactly when the product of the two charges is not negative, and it does not depend
  on the order of the two tracks.
\<close>

theorem chargeType_label:
  "chargeType q1 q2 \<in> {''SS'', ''OS''}
   \<and> (chargeType q1 q2 = ''SS'' \<longleftrightarrow> sint q1 * sint q2 \<ge> 0)
   \<and> (chargeType q1 q2 = ''OS'' \<longleftrightarrow> sint q1 * sint q2 < 0)
   \<and> chargeType q2 q1 = chargeType q1 q2"
  by (simp add: chargeType_def mult.commute)

subsection \<open>The selection of pair types\<close>

lemma split_comma_ne: "split_comma s \<noteq> []"
  by (induction s) auto

lemma match_here_hd:
  "CHR '','' \<notin> set L \<Longrightarrow> CHR 0x0A \<notin> set s \<Longrightarrow> match_here L s \<longleftrightarrow> hd (split_comma s) = L"
proof (induction L arbitrary: s)
  case Nil
  then show ?case
    by (cases s) (auto simp: match_here_def)
next
  case (Cons a L)
  show ?case
  proof (cases s)
    case Nil
    then show ?thesis by (simp add: match_here_def)
  next
    case (Cons c s')
    have "match_here (a # L) (c # s') \<longleftrightarrow> c = a \<and> match_here L s'"
      by (auto simp: match_here_def Let_def)
    moreover have "match_here L s' \<longleftrightarrow> hd (split_comma s') = L"
      using Cons.IH [of s'] Cons.prems Cons by simp
    ultimately show ?thesis
      using Cons Cons.prems by auto
  qed
qed

lemma scan_comma_tl:
  "CHR '','' \<notin> set L \<Longrightarrow> CHR 0x0A \<notin> set s \<Longrightarrow> scan_comma L s \<longleftrightarrow> L \<in> set (tl (split_comma s))"
proof (induction s)
  case Nil
  then show ?case by simp
next
  case (Cons c s)
  show ?case
  proof (cases "c = CHR '',''")
    case True
    have "set (split_comma s) = insert (hd (split_comma s)) (set (tl (split_comma s)))"
      using split_comma_ne [of s] by (cases "split_comma s") auto
    then show ?thesis
      using True Cons match_here_hd [of L s] by auto
  next
    case False
    then show ?thesis using Cons by simp
  qed
qed

lemma Contains_re_segments:
  assumes "CHR '','' \<notin> set L" "CHR 0x0A \<notin> set s"
  shows "Contains_re s L \<longleftrightarrow> L \<in> set (split_comma s)"
proof -
  have "set (split_comma s) = insert (hd (split_comma s)) (set (tl (split_comma s)))"
    using split_comma_ne [of s] by (cases "split_comma s") auto
  then show ?thesis
    using assms by (auto simp: Contains_re_def match_here_hd scan_comma_tl)
qed

text \<open>
  Claim C5, as amended. For a label without a comma and without a character that is
  special in a regular expression, and a configured set without a line feed, the pair
  is dropped exactly when the set is not empty and the label equals none of its
  comma-delimited segments; with the empty set every label is kept.
\<close>

theorem pair_type_kept_exact_segment:
  assumes "literal_pattern label" and "CHR '','' \<notin> set label"
      and "CHR 0x0A \<notin> set selected"
  shows "((\<not> pair_type_kept contains selected label)
            = (selected \<noteq> [] \<and> label \<notin> set (split_comma selected)))
       \<and> pair_type_kept contains [] anyType"
  using assms by (auto simp: pair_type_kept_def Contains_re_segments)

theorem pair_type_kept_witness:
  "literal_pattern ''Jps'' \<and> CHR '','' \<notin> set ''Jps'' \<and> CHR 0x0A \<notin> set ''Jpsi,Upsilon''
   \<and> \<not> pair_type_kept (Contains_TPRegexp example_env) ''Jpsi,Upsilon'' ''Jps''
   \<and> ''Jps'' \<notin> set (split_comma ''Jpsi,Upsilon'')"
proof -
  have h1: "literal_pattern ''Jps''"
    by (simp add: literal_pattern_def regexp_special_def)
  have h2: "CHR '','' \<notin> set ''Jps''" by simp
  have h3: "CHR 0x0A \<notin> set ''Jpsi,Upsilon''" by simp
  have s: "''Jps'' \<notin> set (split_comma ''Jpsi,Upsilon'')" by simp
  from pair_type_kept_exact_segment [OF h1 h2 h3, of "Contains_TPRegexp example_env"] s
  have "\<not> pair_type_kept (Contains_TPRegexp example_env) ''Jpsi,Upsilon'' ''Jps''" by simp
  with h1 h2 h3 s show ?thesis by simp
qed

text \<open>
  Claim C5 as stated fails for a label with a comma: the label \<open>a,b\<close> equals neither
  segment of the configured set \<open>a,b\<close>, and the pair is kept.
\<close>

theorem pair_type_kept_counterexample:
  "pair_type_kept (Contains_TPRegexp example_env) ''a,b'' ''a,b''
   \<and> ''a,b'' \<noteq> [] \<and> ''a,b'' \<notin> set (split_comma ''a,b'')"
  by (simp add: pair_type_kept_def Contains_re_def match_here_def literal_pattern_def
      regexp_special_def)

subsection \<open>Rounding to double precision\<close>

lemma round_even_of_int: "round_even (of_int m) = m"
  by (simp add: round_even_def)

lemma round_even_ge: "of_int m \<le> x \<Longrightarrow> m \<le> round_even x"
proof -
  assume "of_int m \<le> x"
  then have "m \<le> \<lfloor>x\<rfloor>" by (simp add: le_floor_iff)
  then show ?thesis unfolding round_even_def Let_def by auto
qed

lemma round_even_le: "x \<le> of_int m \<Longrightarrow> round_even x \<le> m"
proof -
  assume a: "x \<le> of_int m"
  have f: "\<lfloor>x\<rfloor> \<le> m" using a by (simp add: floor_le_iff)
  show ?thesis
  proof (cases "\<lfloor>x\<rfloor> = m")
    case True
    then have "x = of_int m" using a by (metis of_int_floor_le order_antisym)
    then show ?thesis by (simp add: round_even_of_int)
  next
    case False
    with f have "\<lfloor>x\<rfloor> + 1 \<le> m" by simp
    then show ?thesis using f unfolding round_even_def Let_def by auto
  qed
qed

lemma ulp_exponent_eq:
  assumes "2 powr of_int e \<le> \<bar>x\<bar>" "\<bar>x\<bar> < 2 powr of_int (e + 1)" "- 1022 \<le> e"
  shows "ulp_exponent x = e - 52"
proof -
  have "0 < \<bar>x\<bar>" using assms(1) by (smt (verit) powr_gt_zero)
  then have "\<lfloor>log 2 \<bar>x\<bar>\<rfloor> = e"
    using assms by (simp add: floor_log_eq_powr_iff)
  then show ?thesis using assms(3) by (simp add: ulp_exponent_def)
qed

lemma round_double_scaled:
  assumes "ulp_exponent x = - int k" "x \<noteq> 0"
  shows "round_double x = of_int (round_even (x * 2 ^ k)) / 2 ^ k"
proof -
  have "(2::real) powr of_int (- int k) = 1 / 2 ^ k"
    by (simp add: powr_minus powr_realpow inverse_eq_divide)
  then show ?thesis
    using assms by (simp add: round_double_def)
qed

lemma round_double_4_8:
  assumes "4 \<le> \<bar>x\<bar>" "\<bar>x\<bar> < 8"
  shows "round_double x = of_int (round_even (x * 2 ^ 50)) / 2 ^ 50"
proof -
  have "ulp_exponent x = - int 50"
    using ulp_exponent_eq [of 2 x] assms by (simp add: powr_numeral)
  moreover have "x \<noteq> 0" using assms by auto
  ultimately show ?thesis by (rule round_double_scaled)
qed

lemma round_double_2_4:
  assumes "2 \<le> \<bar>x\<bar>" "\<bar>x\<bar> < 4"
  shows "round_double x = of_int (round_even (x * 2 ^ 51)) / 2 ^ 51"
proof -
  have "ulp_exponent x = - int 51"
    using ulp_exponent_eq [of 1 x] assms by simp
  moreover have "x \<noteq> 0" using assms by auto
  ultimately show ?thesis by (rule round_double_scaled)
qed


lemma TMath_Pi_bounds: "3 < TMath_Pi" "TMath_Pi < 4"
  by (simp_all add: TMath_Pi_def)

text \<open>
  The sum of a negative azimuth and \<^verbatim>\<open>2.*TMath::Pi()\<close> rounds to a double between
  \<^verbatim>\<open>TMath::Pi()\<close> and \<^verbatim>\<open>2.*TMath::Pi()\<close>, both of which are doubles.
\<close>

lemma double_add_two_pi:
  assumes "- TMath_Pi \<le> raw" "raw < 0"
  shows "TMath_Pi \<le> double_add raw (2 * TMath_Pi) \<and> double_add raw (2 * TMath_Pi) \<le> 2 * TMath_Pi"
proof -
  define y where "y = raw + 2 * TMath_Pi"
  have y: "TMath_Pi \<le> y" "y < 2 * TMath_Pi" using assms by (simp_all add: y_def)
  have ypos: "\<bar>y\<bar> = y" using y TMath_Pi_bounds by simp
  show ?thesis
  proof (cases "y < 4")
    case True
    have r: "round_double y = of_int (round_even (y * 2 ^ 51)) / 2 ^ 51"
      using True y TMath_Pi_bounds ypos by (intro round_double_2_4) simp_all
    have "of_int 7074237752028440 \<le> y * 2 ^ 51"
      using y(1) by (simp add: TMath_Pi_def)
    then have lo: "7074237752028440 \<le> round_even (y * 2 ^ 51)"
      by (rule round_even_ge)
    have "y * 2 ^ 51 \<le> of_int 9007199254740992"
      using True by simp
    then have hi: "round_even (y * 2 ^ 51) \<le> 9007199254740992"
      by (rule round_even_le)
    have "TMath_Pi \<le> round_double y"
      unfolding r using lo by (simp add: TMath_Pi_def field_simps)
    moreover have "round_double y \<le> 2 * TMath_Pi"
      unfolding r using hi by (simp add: TMath_Pi_def field_simps)
    ultimately show ?thesis by (simp add: double_add_def y_def)
  next
    case False
    have r: "round_double y = of_int (round_even (y * 2 ^ 50)) / 2 ^ 50"
      using False y TMath_Pi_bounds ypos by (intro round_double_4_8) simp_all
    have "of_int 4503599627370496 \<le> y * 2 ^ 50"
      using False by simp
    then have lo: "4503599627370496 \<le> round_even (y * 2 ^ 50)"
      by (rule round_even_ge)
    have "y * 2 ^ 50 \<le> of_int 7074237752028440"
      using y(2) by (simp add: TMath_Pi_def)
    then have hi: "round_even (y * 2 ^ 50) \<le> 7074237752028440"
      by (rule round_even_le)
    have "TMath_Pi \<le> round_double y"
      unfolding r using lo by (simp add: TMath_Pi_def field_simps)
    moreover have "round_double y \<le> 2 * TMath_Pi"
      unfolding r using hi by (simp add: TMath_Pi_def field_simps)
    ultimately show ?thesis by (simp add: double_add_def y_def)
  qed
qed

lemma normalise_phi_range:
  assumes "- TMath_Pi \<le> raw" "raw \<le> TMath_Pi"
  shows "0 \<le> normalise_phi raw \<and> normalise_phi raw \<le> 2 * TMath_Pi"
proof (cases "raw < 0")
  case True
  then show ?thesis
    using double_add_two_pi [OF assms(1) True] TMath_Pi_bounds
    by (simp add: normalise_phi_def)
next
  case False
  then show ?thesis
    using assms(2) TMath_Pi_bounds by (simp add: normalise_phi_def)
qed


subsection \<open>The tracklets of a pair and the samples of an event\<close>





lemma nth_zero_counts: "i \<le> length cuts \<Longrightarrow> zero_counts cuts ! i = 0"
  by (cases i) (simp_all add: zero_counts_def)






lemma nth_containerInput:
  "containerInput v phi c k ! kHvarPhi = phi"
  "containerInput v phi c k ! kHtracklets = real_of_int k"
  by (simp_all add: containerInput_def kHvarPhi_def kHtracklets_def kNvars_def kHcentrality_def
      kHvarPt_def kHvarY_def kHvarInvMass_def numeral_eq_Suc)

lemma FillSparse_in_pair_fills:
  assumes "FillSparse identifier x \<in> set (pair_fills env t ev istep trigs (a, b))"
  shows "\<exists>icut \<le> length (fTrackletDistCuts t).
           x = containerInput (GetTrackPair env a b) (normalise_phi (Phi (GetTrackPair env a b)))
                 (GetCentrality ev)
                 (nTrackletsPerCut (fTrackletDistCuts t) (GetMultiplicity ev)
                    (normalise_phi (Phi (GetTrackPair env a b))) ! icut)"
  using assms
  by (auto simp: pair_fills_def Let_def less_Suc_eq_le simp del: upt_Suc split: if_splits)

lemma FillSparse_in_step_fills:
  assumes "FillSparse identifier x \<in> set (step_fills env t ev istep)"
  shows "\<exists>a b trigs. FillSparse identifier x \<in> set (pair_fills env t ev istep trigs (a, b))"
  using assms by (auto simp: step_fills_def Let_def split: if_splits)

lemma FillSparse_in_event_fills:
  assumes "FillSparse identifier x \<in> set (event_fills env t ev)"
  shows "\<exists>a b. \<exists>icut \<le> length (fTrackletDistCuts t).
           x = containerInput (GetTrackPair env a b) (normalise_phi (Phi (GetTrackPair env a b)))
                 (GetCentrality ev)
                 (nTrackletsPerCut (fTrackletDistCuts t) (GetMultiplicity ev)
                    (normalise_phi (Phi (GetTrackPair env a b))) ! icut)"
proof -
  from assms obtain istep where "FillSparse identifier x \<in> set (step_fills env t ev istep)"
    by (auto simp: event_fills_def Let_def)
  then obtain a b trigs where "FillSparse identifier x \<in> set (pair_fills env t ev istep trigs (a, b))"
    using FillSparse_in_step_fills by blast
  then show ?thesis using FillSparse_in_pair_fills by blast
qed

lemma fill_identifier_pair_fills:
  "map fill_identifier (pair_fills env t (ev\<lparr>GetMultiplicity := m\<rparr>) istep trigs tt)
     = map fill_identifier (pair_fills env t ev istep trigs tt)"
  by (simp add: pair_fills_def Let_def map_concat comp_def if_distrib [of "map fill_identifier"]
        cong: if_cong)

lemma fill_identifier_step_fills:
  "map fill_identifier (step_fills env t (ev\<lparr>GetMultiplicity := m\<rparr>) istep)
     = map fill_identifier (step_fills env t ev istep)"
  by (simp add: step_fills_def Let_def map_concat comp_def fill_identifier_pair_fills)

lemma fill_identifier_event_fills:
  "map fill_identifier (event_fills env t (ev\<lparr>GetMultiplicity := m\<rparr>))
     = map fill_identifier (event_fills env t ev)"
  by (simp add: event_fills_def Let_def map_concat comp_def fill_identifier_step_fills)

lemma example_pair_fills:
  "pair_fills example_env example_task example_event kStepReconstructed [''CMUL'']
     (example_track 1, example_track (- 1)) =
     [FillSparse ''/CMUL/trackletDistCuts_none/Jpsi/OS''
        (containerInput \<lparr>Pt = 1, Rapidity = - 3, Phi = - 1, M = 3\<rparr> (normalise_phi (- 1)) 10 0)]"
  by (simp add: pair_fills_def example_env_def example_task_def
      example_event_def example_track_def Let_def
      pair_type_kept_def nTrackletsPerCut_def zero_counts_def trackletDistCutsName_def
      chargeType_def)

lemma example_fills:
  "event_fills example_env example_task example_event =
     [FillNevents ''/CMUL'',
      FillSparse ''/CMUL/trackletDistCuts_none/Jpsi/OS''
        (containerInput \<lparr>Pt = 1, Rapidity = - 3, Phi = - 1, M = 3\<rparr> (normalise_phi (- 1)) 10 0)]"
  by (simp add: event_fills_def step_fills_def pair_fills_def example_env_def example_task_def
      example_event_def example_track_def Let_def isSelected_def kStepReconstructed_def
      pair_type_kept_def nTrackletsPerCut_def zero_counts_def trackletDistCutsName_def
      chargeType_def)

lemma factory_names_empty: "factory_names Map.empty"
  by (simp add: factory_names_def)

lemma factory_names_GetMergeableObject:
  assumes "factory_names (fMergeableCollection t)"
  shows "factory_names (fMergeableCollection (snd (GetMergeableObject t identifier objectName)))"
  using assms
  by (auto simp: GetMergeableObject_def GetObject_def Adopt_def factory_names_def Let_def
      split: option.splits if_splits)

lemma factory_names_apply_fill:
  assumes "factory_names (fMergeableCollection t)"
  shows "factory_names (fMergeableCollection (apply_fill t f))"
proof (cases f)
  case (FillNevents ident)
  have "factory_names (fMergeableCollection (snd (GetMergeableObject t ident ''nevents'')))"
    using assms by (rule factory_names_GetMergeableObject)
  then show ?thesis
    using FillNevents
    by (auto simp: apply_fill_def factory_names_def split: prod.splits option.splits mergeable.splits)
next
  case (FillSparse ident x)
  have "factory_names (fMergeableCollection (snd (GetMergeableObject t ident ''DimuSparse'')))"
    using assms by (rule factory_names_GetMergeableObject)
  then show ?thesis
    using FillSparse
    by (auto simp: apply_fill_def factory_names_def split: prod.splits option.splits mergeable.splits)
qed

lemma factory_names_foldl:
  "factory_names (fMergeableCollection t) \<Longrightarrow>
   factory_names (fMergeableCollection (foldl apply_fill t fs))"
  by (induction fs arbitrary: t) (simp_all add: factory_names_apply_fill)

lemma factory_names_UserExec:
  "factory_names (fMergeableCollection t) \<Longrightarrow>
   factory_names (fMergeableCollection (UserExec env t ev))"
  by (simp add: UserExec_def factory_names_foldl)

text \<open>
  Claim C9, as amended. When the pair four-vector gives an azimuth between
  \<^verbatim>\<open>-TMath::Pi()\<close> and \<^verbatim>\<open>TMath::Pi()\<close>, the azimuth of every sample that a pair sends to
  a histogram is that value, to which \<^verbatim>\<open>2.*TMath::Pi()\<close> is added in double precision
  exactly when it is negative; the azimuth of every sample of the event is never
  negative and never above \<^verbatim>\<open>2.*TMath::Pi()\<close>, the upper edge of the axis.
\<close>

theorem azimuth_in_range:
  assumes "\<forall>a b. - TMath_Pi \<le> Phi (GetTrackPair env a b) \<and> Phi (GetTrackPair env a b) \<le> TMath_Pi"
  shows "(\<forall>ident x. FillSparse ident x \<in> set (pair_fills env t ev istep trigs (a, b)) \<longrightarrow>
            x ! kHvarPhi =
              (if Phi (GetTrackPair env a b) < 0
               then double_add (Phi (GetTrackPair env a b)) (2 * TMath_Pi)
               else Phi (GetTrackPair env a b)))
       \<and> (\<forall>ident x. FillSparse ident x \<in> set (event_fills env t ev) \<longrightarrow>
            0 \<le> x ! kHvarPhi \<and> x ! kHvarPhi \<le> phiMax)"
proof -
  have p: "x ! kHvarPhi =
              (if Phi (GetTrackPair env a b) < 0
               then double_add (Phi (GetTrackPair env a b)) (2 * TMath_Pi)
               else Phi (GetTrackPair env a b))"
    if "FillSparse ident x \<in> set (pair_fills env t ev istep trigs (a, b))" for ident x
    using FillSparse_in_pair_fills [OF that]
    by (auto simp: nth_containerInput normalise_phi_def)
  have e: "0 \<le> x ! kHvarPhi \<and> x ! kHvarPhi \<le> phiMax"
    if "FillSparse ident x \<in> set (event_fills env t ev)" for ident x
  proof -
    from that obtain c d where "x ! kHvarPhi = normalise_phi (Phi (GetTrackPair env c d))"
      using FillSparse_in_event_fills [of ident x env t ev] by (auto simp: nth_containerInput)
    moreover have "0 \<le> normalise_phi (Phi (GetTrackPair env c d))
         \<and> normalise_phi (Phi (GetTrackPair env c d)) \<le> 2 * TMath_Pi"
      using assms by (intro normalise_phi_range) auto
    ultimately show ?thesis by (simp add: phiMax_def)
  qed
  show ?thesis using p e by blast
qed

theorem azimuth_in_range_witness:
  "(\<forall>a b. - TMath_Pi \<le> Phi (GetTrackPair example_env a b)
           \<and> Phi (GetTrackPair example_env a b) \<le> TMath_Pi)
   \<and> FillSparse ''/CMUL/trackletDistCuts_none/Jpsi/OS''
        (containerInput \<lparr>Pt = 1, Rapidity = - 3, Phi = - 1, M = 3\<rparr> (normalise_phi (- 1)) 10 0)
       \<in> set (pair_fills example_env example_task example_event kStepReconstructed [''CMUL'']
                 (example_track 1, example_track (- 1)))
   \<and> FillSparse ''/CMUL/trackletDistCuts_none/Jpsi/OS''
        (containerInput \<lparr>Pt = 1, Rapidity = - 3, Phi = - 1, M = 3\<rparr> (normalise_phi (- 1)) 10 0)
       \<in> set (event_fills example_env example_task example_event)
   \<and> containerInput \<lparr>Pt = 1, Rapidity = - 3, Phi = - 1, M = 3\<rparr> (normalise_phi (- 1)) 10 0 ! kHvarPhi
       = double_add (- 1) (2 * TMath_Pi)
   \<and> 0 \<le> containerInput \<lparr>Pt = 1, Rapidity = - 3, Phi = - 1, M = 3\<rparr> (normalise_phi (- 1)) 10 0 ! kHvarPhi
   \<and> containerInput \<lparr>Pt = 1, Rapidity = - 3, Phi = - 1, M = 3\<rparr> (normalise_phi (- 1)) 10 0 ! kHvarPhi
       \<le> phiMax"
proof -
  let ?x = "containerInput \<lparr>Pt = 1, Rapidity = - 3, Phi = - 1, M = 3\<rparr> (normalise_phi (- 1)) 10 0"
  have h1: "\<forall>a b. - TMath_Pi \<le> Phi (GetTrackPair example_env a b)
           \<and> Phi (GetTrackPair example_env a b) \<le> TMath_Pi"
    by (simp add: example_env_def TMath_Pi_def)
  have h2: "FillSparse ''/CMUL/trackletDistCuts_none/Jpsi/OS'' ?x
       \<in> set (pair_fills example_env example_task example_event kStepReconstructed [''CMUL'']
                 (example_track 1, example_track (- 1)))"
    by (simp add: example_pair_fills)
  have h3: "FillSparse ''/CMUL/trackletDistCuts_none/Jpsi/OS'' ?x
       \<in> set (event_fills example_env example_task example_event)"
    by (simp add: example_fills)
  note w = azimuth_in_range [OF h1, of example_task example_event kStepReconstructed "[''CMUL'']"
      "example_track 1" "example_track (- 1)"]
  from w h2 have "?x ! kHvarPhi =
      (if Phi (GetTrackPair example_env (example_track 1) (example_track (- 1))) < 0
       then double_add (Phi (GetTrackPair example_env (example_track 1) (example_track (- 1))))
              (2 * TMath_Pi)
       else Phi (GetTrackPair example_env (example_track 1) (example_track (- 1))))"
    by blast
  then have a: "?x ! kHvarPhi = double_add (- 1) (2 * TMath_Pi)"
    by (simp add: example_env_def)
  from w h3 have b: "0 \<le> ?x ! kHvarPhi \<and> ?x ! kHvarPhi \<le> phiMax"
    by blast
  show ?thesis using h1 h2 h3 a b by blast
qed

text \<open>
  Claim C9 as stated fails: for the raw azimuth \<open>- 2 ^ (- 60)\<close> the sum with
  \<^verbatim>\<open>2.*TMath::Pi()\<close> rounds to \<^verbatim>\<open>2.*TMath::Pi()\<close> itself, so the stored azimuth is the
  upper edge of the axis and not below it.
\<close>

theorem azimuth_in_range_counterexample:
  "- TMath_Pi \<le> - 1 / 2 ^ 60 \<and> - 1 / 2 ^ 60 < (0::real)
   \<and> normalise_phi (- 1 / 2 ^ 60) = phiMax \<and> \<not> normalise_phi (- 1 / 2 ^ 60) < 2 * TMath_Pi"
proof -
  have r: "4 \<le> \<bar>- 1 / 2 ^ 60 + 2 * TMath_Pi\<bar>" "\<bar>- 1 / 2 ^ 60 + 2 * TMath_Pi\<bar> < 8"
    by (simp_all add: TMath_Pi_def)
  have "(- 1 / 2 ^ 60 + 2 * TMath_Pi) * 2 ^ 50 = 7074237752028440 - 1 / 1024"
    by (simp add: TMath_Pi_def)
  moreover have "round_even (7074237752028440 - 1 / 1024) = 7074237752028440"
    by (simp add: round_even_def Let_def)
  ultimately have "round_double (- 1 / 2 ^ 60 + 2 * TMath_Pi) = 2 * TMath_Pi"
    using round_double_4_8 [OF r] by (simp add: TMath_Pi_def)
  then have "normalise_phi (- 1 / 2 ^ 60) = 2 * TMath_Pi"
    by (simp add: normalise_phi_def double_add_def)
  then show ?thesis by (simp add: phiMax_def TMath_Pi_def)
qed

text \<open>
  Claim C10. When the event has no multiplicity object, every sample sent to a
  histogram carries the tracklet count 0, for every cut and for the slot without cut,
  and the histograms that are filled are the same as with a multiplicity object.
\<close>

theorem no_multiplicity_zero_counts:
  assumes "GetMultiplicity ev = None"
  shows "(\<forall>ident x. FillSparse ident x \<in> set (event_fills env t ev) \<longrightarrow> x ! kHtracklets = 0)
       \<and> map fill_identifier (event_fills env t ev)
           = map fill_identifier (event_fills env t (ev\<lparr>GetMultiplicity := Some trks\<rparr>))"
proof -
  have "x ! kHtracklets = 0" if "FillSparse ident x \<in> set (event_fills env t ev)" for ident x
    using FillSparse_in_event_fills [OF that] assms
    by (auto simp: nth_containerInput nTrackletsPerCut_def nth_zero_counts)
  then show ?thesis
    by (simp add: fill_identifier_event_fills)
qed

theorem no_multiplicity_witness:
  "GetMultiplicity example_event = None
   \<and> FillSparse ''/CMUL/trackletDistCuts_none/Jpsi/OS''
        (containerInput \<lparr>Pt = 1, Rapidity = - 3, Phi = - 1, M = 3\<rparr> (normalise_phi (- 1)) 10 0)
       \<in> set (event_fills example_env example_task example_event)
   \<and> containerInput \<lparr>Pt = 1, Rapidity = - 3, Phi = - 1, M = 3\<rparr> (normalise_phi (- 1)) 10 0
       ! kHtracklets = 0"
proof -
  have h1: "GetMultiplicity example_event = None"
    by (simp add: example_event_def)
  have h2: "FillSparse ''/CMUL/trackletDistCuts_none/Jpsi/OS''
        (containerInput \<lparr>Pt = 1, Rapidity = - 3, Phi = - 1, M = 3\<rparr> (normalise_phi (- 1)) 10 0)
       \<in> set (event_fills example_env example_task example_event)"
    by (simp add: example_fills)
  from no_multiplicity_zero_counts [OF h1, of example_env example_task] h1 h2
  show ?thesis by blast
qed

text \<open>
  Claim C8. For an event that the event cuts reject, the task returns at once: the
  collection, its objects and the log are those of before the call.
\<close>

theorem UserExec_rejected_event:
  assumes "\<not> EventSelected ev"
  shows "UserExec env t ev = t"
  using assms by (simp add: UserExec_def)

theorem UserExec_rejected_event_witness:
  "\<not> EventSelected (example_event\<lparr>EventSelected := False\<rparr>)
   \<and> UserExec example_env example_task (example_event\<lparr>EventSelected := False\<rparr>) = example_task"
proof -
  have h: "\<not> EventSelected (example_event\<lparr>EventSelected := False\<rparr>)" by simp
  from UserExec_rejected_event [OF h] h show ?thesis by simp
qed

text \<open>
  Claim C3. On a collection of the task, which holds objects of the two factory names
  only, a request for any other name logs the error, returns no object and leaves the
  collection as it was.
\<close>

theorem GetMergeableObject_unknown_object:
  assumes "factory_names (fMergeableCollection t)"
      and "objectName \<noteq> ''DimuSparse''" and "objectName \<noteq> ''nevents''"
  shows "fst (GetMergeableObject t ident objectName) = None
       \<and> fMergeableCollection (snd (GetMergeableObject t ident objectName)) = fMergeableCollection t
       \<and> messages (snd (GetMergeableObject t ident objectName)) =
           messages t @ [AliError (''Unknown object '' @ objectName @ [CHR 0x0A]),
                         AliInfo ''Mergeable object collection size'']"
proof -
  have "GetObject (fMergeableCollection t) ident objectName = None"
    using assms unfolding factory_names_def GetObject_def by blast
  then show ?thesis
    using assms by (simp add: GetMergeableObject_def Adopt_def)
qed

theorem GetMergeableObject_unknown_witness:
  "factory_names (fMergeableCollection example_task)
   \<and> ''Dimu'' \<noteq> ''DimuSparse'' \<and> ''Dimu'' \<noteq> ''nevents''
   \<and> fst (GetMergeableObject example_task ''/CMUL'' ''Dimu'') = None
   \<and> fMergeableCollection (snd (GetMergeableObject example_task ''/CMUL'' ''Dimu'')) = Map.empty"
proof -
  have h1: "factory_names (fMergeableCollection example_task)"
    by (simp add: example_task_def factory_names_def)
  have h2: "''Dimu'' \<noteq> ''DimuSparse''" and h3: "''Dimu'' \<noteq> ''nevents''" by simp_all
  from GetMergeableObject_unknown_object [OF h1 h2 h3, of "''/CMUL''"] h1
  show ?thesis by (simp add: example_task_def)
qed


subsection \<open>Merging stores\<close>

lemma merge_histogram_empty: "merge_histogram h (empty_like h) = Inr h"
  by (simp add: merge_histogram_def empty_like_def)

lemma merge_histogram_comm: "merge_histogram a b = merge_histogram b a"
  by (auto simp: merge_histogram_def add.commute)

lemma merge_object_comm: "merge_object x y = merge_object y x"
  by (cases x; cases y) (simp_all add: merge_histogram_comm add.commute)

lemma merge_object_same:
  assumes "structure_of x = structure_of y"
  obtains z where "merge_object x y = Inr z" "structure_of z = structure_of x"
  using assms by (cases x; cases y) (auto simp: merge_histogram_def)

lemma merge_object_Inr: "merge_object x y = Inr z \<Longrightarrow> structure_of z = structure_of x"
  by (cases x; cases y) (auto simp: merge_histogram_def split: if_splits)

lemma merge_object_assoc:
  assumes "merge_object y z = Inr yz" "merge_object x y = Inr xy"
  shows "merge_object x yz = merge_object xy z"
  using assms
  by (cases x; cases y; cases z)
     (auto simp: merge_histogram_def add.assoc split: if_splits)

lemma compatible_sym: "compatible a b = compatible b a"
  unfolding compatible_def by metis

lemma compatibleD:
  "compatible a b \<Longrightarrow> a p = Some x \<Longrightarrow> b p = Some y \<Longrightarrow> structure_of x = structure_of y"
  unfolding compatible_def by blast

lemma Merge_None: "b p = None \<Longrightarrow> Merge a b p = a p"
  by (simp add: Merge_def)

lemma Merge_adopt: "a p = None \<Longrightarrow> Merge a b p = b p"
  by (simp add: Merge_def split: option.splits)

lemma Merge_both:
  "a p = Some x \<Longrightarrow> b p = Some y \<Longrightarrow> merge_object x y = Inr z \<Longrightarrow> Merge a b p = Some z"
  by (simp add: Merge_def)

lemma Merge_comm:
  assumes "compatible a b"
  shows "Merge a b = Merge b a"
proof (rule ext)
  fix p
  show "Merge a b p = Merge b a p"
  proof (cases "a p")
    case None
    then show ?thesis by (simp add: Merge_None Merge_adopt)
  next
    case ax: (Some x)
    show ?thesis
    proof (cases "b p")
      case None
      with ax show ?thesis by (simp add: Merge_None Merge_adopt)
    next
      case (Some y)
      with ax assms have "structure_of x = structure_of y" by (rule_tac compatibleD)
      then obtain z where "merge_object x y = Inr z" by (rule merge_object_same)
      then show ?thesis
        using ax Some merge_object_comm [of x y] by (simp add: Merge_both)
    qed
  qed
qed

lemma Merge_structure:
  assumes "Merge a b p = Some z" "compatible a b"
  shows "(\<forall>x. a p = Some x \<longrightarrow> structure_of z = structure_of x)
       \<and> (\<forall>y. b p = Some y \<longrightarrow> structure_of z = structure_of y)"
proof (cases "a p")
  case None
  with assms show ?thesis by (simp add: Merge_adopt)
next
  case ax: (Some x)
  show ?thesis
  proof (cases "b p")
    case None
    with ax assms show ?thesis by (simp add: Merge_None)
  next
    case (Some y)
    with ax assms have s: "structure_of x = structure_of y" by (rule_tac compatibleD)
    then obtain r where r: "merge_object x y = Inr r" "structure_of r = structure_of x"
      by (rule merge_object_same)
    then show ?thesis using ax Some assms s by (simp add: Merge_both)
  qed
qed

lemma compatible_Merge_left:
  assumes "compatible a b" "compatible a c" "compatible b c"
  shows "compatible (Merge a b) c"
  unfolding compatible_def
proof (intro allI impI, elim conjE)
  fix p z w
  assume m: "Merge a b p = Some z" and c: "c p = Some w"
  show "structure_of z = structure_of w"
  proof (cases "a p")
    case None
    with m have "b p = Some z" by (simp add: Merge_adopt)
    with c assms(3) show ?thesis by (rule_tac compatibleD)
  next
    case (Some x)
    then have "structure_of z = structure_of x"
      using Merge_structure [OF m assms(1)] by simp
    moreover have "structure_of x = structure_of w"
      using Some c assms(2) by (rule_tac compatibleD)
    ultimately show ?thesis by simp
  qed
qed

lemma compatible_Merge_right:
  assumes "compatible b c" "compatible a b" "compatible a c"
  shows "compatible a (Merge b c)"
  using compatible_Merge_left [of b c a] assms by (simp add: compatible_sym)

lemma Merge_assoc:
  assumes "compatible a b" "compatible b c" "compatible a c"
  shows "Merge a (Merge b c) = Merge (Merge a b) c"
proof (rule ext)
  fix p
  show "Merge a (Merge b c) p = Merge (Merge a b) c p"
  proof (cases "a p")
    case None
    then show ?thesis by (simp add: Merge_def split: option.splits)
  next
    case ax: (Some x)
    show ?thesis
    proof (cases "b p")
      case None
      with ax show ?thesis by (simp add: Merge_def split: option.splits)
    next
      case bx: (Some y)
      from ax bx assms(1) have sxy: "structure_of x = structure_of y" by (rule_tac compatibleD)
      then obtain xy where xy: "merge_object x y = Inr xy" "structure_of xy = structure_of x"
        by (rule merge_object_same)
      have mab: "Merge a b p = Some xy" using ax bx xy by (simp add: Merge_both)
      show ?thesis
      proof (cases "c p")
        case None
        then have "Merge b c p = Some y" using bx by (simp add: Merge_None)
        then have "Merge a (Merge b c) p = Some xy" using ax xy by (simp add: Merge_both)
        moreover have "Merge (Merge a b) c p = Some xy" using None mab by (simp add: Merge_None)
        ultimately show ?thesis by simp
      next
        case (Some z)
        from bx Some assms(2) have syz: "structure_of y = structure_of z" by (rule_tac compatibleD)
        then obtain yz where yz: "merge_object y z = Inr yz" "structure_of yz = structure_of y"
          by (rule merge_object_same)
        have mbc: "Merge b c p = Some yz" using bx Some yz by (simp add: Merge_both)
        have "structure_of x = structure_of yz" using sxy yz by simp
        then obtain r where r: "merge_object x yz = Inr r"
          by (rule merge_object_same)
        have "merge_object xy z = Inr r"
          using merge_object_assoc [OF yz(1) xy(1)] r by simp
        then have "Merge (Merge a b) c p = Some r" using mab Some by (simp add: Merge_both)
        moreover have "Merge a (Merge b c) p = Some r" using ax mbc r by (simp add: Merge_both)
        ultimately show ?thesis by simp
      qed
    qed
  qed
qed

lemma Merge_empty: "Merge a Map.empty = a" "Merge Map.empty a = a"
  by (rule ext, simp add: Merge_def split: option.splits)+

lemma foldl_Merge_compatible:
  assumes "\<forall>w \<in> set ws. compatible acc w \<and> compatible w c"
      and "\<forall>v \<in> set ws. \<forall>w \<in> set ws. compatible v w" and "compatible acc c"
  shows "compatible (foldl Merge acc ws) c"
  using assms
proof (induction ws arbitrary: acc)
  case Nil
  then show ?case by simp
next
  case (Cons w ws)
  have 1: "compatible (Merge acc w) c"
    using Cons.prems by (intro compatible_Merge_left) auto
  have 2: "\<forall>v \<in> set ws. compatible (Merge acc w) v \<and> compatible v c"
    using Cons.prems by (auto intro!: compatible_Merge_left)
  show ?case
    using Cons.IH [OF 2 _ 1] Cons.prems by simp
qed

lemma foldl_Merge_commute:
  assumes "\<forall>w \<in> set ws. compatible acc w \<and> compatible w x \<and> compatible x w"
      and "\<forall>v \<in> set ws. \<forall>w \<in> set ws. compatible v w" and "compatible acc x"
  shows "foldl Merge (Merge acc x) ws = Merge (foldl Merge acc ws) x"
  using assms
proof (induction ws arbitrary: acc)
  case Nil
  then show ?case by simp
next
  case (Cons w ws)
  have cw: "compatible acc w" "compatible x w" "compatible w x" "compatible acc x"
    using Cons.prems by auto
  have "Merge (Merge acc x) w = Merge acc (Merge x w)"
    using cw by (simp add: Merge_assoc)
  also have "\<dots> = Merge acc (Merge w x)"
    using cw by (simp add: Merge_comm)
  also have "\<dots> = Merge (Merge acc w) x"
    using cw by (simp add: Merge_assoc)
  finally have sw: "Merge (Merge acc x) w = Merge (Merge acc w) x" .
  have 1: "compatible (Merge acc w) x"
    using cw by (intro compatible_Merge_left) auto
  have 2: "\<forall>v \<in> set ws. compatible (Merge acc w) v \<and> compatible v x \<and> compatible x v"
    using Cons.prems by (auto intro!: compatible_Merge_left)
  show ?case
    using Cons.IH [OF 2 _ 1] Cons.prems sw by simp
qed

lemma foldl_Merge_permute:
  assumes "mset ws = mset ws'"
      and "\<forall>w \<in> set ws. compatible acc w"
      and "\<forall>v \<in> set ws. \<forall>w \<in> set ws. compatible v w"
  shows "foldl Merge acc ws = foldl Merge acc ws'"
  using assms
proof (induction ws arbitrary: ws' acc)
  case Nil
  then show ?case by simp
next
  case (Cons x xs)
  have "x \<in> set ws'" using Cons.prems(1) by (metis list.set_intros(1) mset_eq_setD)
  then obtain ys zs where ws': "ws' = ys @ x # zs" by (auto dest: split_list)
  have ms: "mset xs = mset (ys @ zs)" using Cons.prems(1) ws' by simp
  have sub: "set ys \<subseteq> set (x # xs)" "set zs \<subseteq> set (x # xs)"
    using Cons.prems(1) ws' by (metis Un_iff set_append list.set_intros(2) mset_eq_setD subsetI)+
  have cy: "\<forall>w \<in> set ys. compatible acc w \<and> compatible w x \<and> compatible x w"
    using sub(1) Cons.prems(2,3) by (simp add: subset_iff) blast
  have cyy: "\<forall>v \<in> set ys. \<forall>w \<in> set ys. compatible v w"
    using sub(1) Cons.prems(3) by blast
  have ax: "compatible acc x" using Cons.prems(2) by simp
  have 1: "\<forall>w \<in> set xs. compatible (Merge acc x) w"
    using Cons.prems(2,3) by (auto intro!: compatible_Merge_left)
  have 2: "\<forall>v \<in> set xs. \<forall>w \<in> set xs. compatible v w"
    using Cons.prems(3) by auto
  have "foldl Merge acc ws' = foldl Merge (Merge (foldl Merge acc ys) x) zs"
    by (simp add: ws')
  also have "\<dots> = foldl Merge (foldl Merge (Merge acc x) ys) zs"
    using foldl_Merge_commute [OF cy cyy ax] by simp
  also have "\<dots> = foldl Merge (Merge acc x) (ys @ zs)" by simp
  also have "\<dots> = foldl Merge (Merge acc x) xs"
    using Cons.IH [OF ms 1 2] by simp
  finally show ?case by simp
qed

text \<open>
  Claim C2. On stores of the same structure \<open>Merge\<close> is commutative and associative,
  path by path and bin by bin, the empty store and the empty histogram are neutral,
  and folding any number of stores into an accumulator gives the same store in every
  order. The merge of two objects is commutative and, where it succeeds, associative.
\<close>

theorem Merge_commutative_associative:
  assumes "compatible a b" and "compatible b c" and "compatible a c"
  shows "Merge a b = Merge b a
       \<and> Merge a (Merge b c) = Merge (Merge a b) c
       \<and> Merge a Map.empty = a \<and> Merge Map.empty a = a
       \<and> merge_object x y = merge_object y x
       \<and> (merge_object y z = Inr yz \<and> merge_object x y = Inr xy
            \<longrightarrow> merge_object x yz = merge_object xy z)
       \<and> merge_histogram h g = merge_histogram g h
       \<and> merge_histogram h (empty_like h) = Inr h
       \<and> (mset ws = mset ws' \<and> (\<forall>w \<in> set ws. compatible acc w)
            \<and> (\<forall>v \<in> set ws. \<forall>w \<in> set ws. compatible v w)
            \<longrightarrow> foldl Merge acc ws = foldl Merge acc ws')"
proof -
  have 1: "Merge a b = Merge b a" using assms(1) by (rule Merge_comm)
  have 2: "Merge a (Merge b c) = Merge (Merge a b) c" using assms by (rule Merge_assoc)
  have 3: "merge_object y z = Inr yz \<and> merge_object x y = Inr xy
            \<longrightarrow> merge_object x yz = merge_object xy z"
    using merge_object_assoc by blast
  have 4: "mset ws = mset ws' \<and> (\<forall>w \<in> set ws. compatible acc w)
            \<and> (\<forall>v \<in> set ws. \<forall>w \<in> set ws. compatible v w)
            \<longrightarrow> foldl Merge acc ws = foldl Merge acc ws'"
    using foldl_Merge_permute by blast
  show ?thesis
    using 1 2 3 4 merge_object_comm [of x y] merge_histogram_comm [of h g]
    by (simp add: Merge_empty merge_histogram_empty)
qed

theorem Merge_commutative_associative_witness:
  "compatible store_one store_two \<and> compatible store_two Map.empty \<and> compatible store_one Map.empty
   \<and> Merge store_one store_two = Merge store_two store_one
   \<and> Merge store_one store_two ''/CMUL'' = Some (Counter 3)
   \<and> foldl Merge Map.empty [store_one, store_two] = foldl Merge Map.empty [store_two, store_one]"
proof -
  have h1: "compatible store_one store_two"
    by (simp add: compatible_def store_one_def store_two_def)
  have h2: "compatible store_two Map.empty" and h3: "compatible store_one Map.empty"
    by (simp_all add: compatible_def)
  have h4: "mset [store_one, store_two] = mset [store_two, store_one]" by simp
  have h5: "\<forall>w \<in> set [store_one, store_two]. compatible Map.empty w"
    by (simp add: compatible_def)
  have h6: "\<forall>v \<in> set [store_one, store_two]. \<forall>w \<in> set [store_one, store_two]. compatible v w"
    by (simp add: compatible_def store_one_def store_two_def)
  note m = Merge_commutative_associative [OF h1 h2 h3,
      where ws = "[store_one, store_two]" and ws' = "[store_two, store_one]" and acc = Map.empty]
  have c: "Merge store_one store_two = Merge store_two store_one"
    using m by blast
  have f: "foldl Merge Map.empty [store_one, store_two] = foldl Merge Map.empty [store_two, store_one]"
    using m h4 h5 h6 by blast
  have v: "Merge store_one store_two ''/CMUL'' = Some (Counter 3)"
    by (simp add: Merge_def store_one_def store_two_def)
  show ?thesis using h1 h2 h3 c f v by simp
qed

end
